theory Spec2Isabelle
  imports Main "HOL-Library.AList"
begin

section \<open>A model of the filesystem seen through pathlib\<close>

text \<open>
  The classifier of \<^verbatim>\<open>utils/classify_workbenches.py\<close> only talks to the filesystem
  through \<^verbatim>\<open>pathlib.Path\<close>: \<^verbatim>\<open>exists\<close>, \<^verbatim>\<open>is_dir\<close>, \<^verbatim>\<open>iterdir\<close>, \<^verbatim>\<open>rglob\<close>, and one
  \<^verbatim>\<open>open(..., "w")\<close>. The filesystem is a tree: a regular file with its contents, or a
  directory with its entries in listing order. A path is the list of its components below
  the filesystem root; names are compared byte by byte (a POSIX filesystem). The model has
  no symbolic links, no permission bits and no limit on the length of a whole path.
\<close>

datatype node = File string | Dir "(string \<times> node) list"

type_synonym filesystem = node
type_synonym pth = "string list"

datatype error =
    FileNotFoundError
  | NotADirectoryError
  | IsADirectoryError
  | IndexError
  | OSError_ENAMETOOLONG
  | UnicodeEncodeError

text \<open>\<^verbatim>\<open>os.stat\<close>: ENOENT for a missing entry, ENOTDIR when a component on the way is a file.\<close>

fun stat :: "filesystem \<Rightarrow> pth \<Rightarrow> error + node" where
  "stat nd [] = Inr nd"
| "stat (File c) (n # ns) = Inl NotADirectoryError"
| "stat (Dir es) (n # ns) =
     (case map_of es n of
        None \<Rightarrow> Inl FileNotFoundError
      | Some nd \<Rightarrow> stat nd ns)"

text \<open>
  What \<^verbatim>\<open>Path.exists\<close> and \<^verbatim>\<open>Path.is_dir\<close> return: they call \<^verbatim>\<open>stat\<close> and turn ENOENT
  and ENOTDIR into \<^verbatim>\<open>False\<close>. On another \<^verbatim>\<open>OSError\<close> they raise instead of returning;
  that is the subject of the section on lookups that raise, further down.
\<close>

definition exists :: "filesystem \<Rightarrow> pth \<Rightarrow> bool" where
  "exists fs p = (case stat fs p of Inr nd \<Rightarrow> True | Inl e \<Rightarrow> False)"

definition is_dir :: "filesystem \<Rightarrow> pth \<Rightarrow> bool" where
  "is_dir fs p = (case stat fs p of Inr (Dir es) \<Rightarrow> True | Inr (File c) \<Rightarrow> False | Inl e \<Rightarrow> False)"

text \<open>\<^verbatim>\<open>Path.iterdir\<close>: the children \<^verbatim>\<open>p / name\<close>, in listing order; it raises off a directory.\<close>

definition iterdir :: "filesystem \<Rightarrow> pth \<Rightarrow> error + pth list" where
  "iterdir fs p =
     (case stat fs p of
        Inl e \<Rightarrow> Inl e
      | Inr (File c) \<Rightarrow> Inl NotADirectoryError
      | Inr (Dir es) \<Rightarrow> Inr (map (\<lambda>e. p @ [fst e]) es))"

text \<open>
  \<^verbatim>\<open>Path.rglob(name)\<close> with a literal name: pathlib walks every directory of the subtree
  (the start included, parents before children) and yields \<^verbatim>\<open>d / name\<close> wherever it
  exists. Off a directory it yields nothing.
\<close>

fun iterate_directories :: "pth \<Rightarrow> node \<Rightarrow> pth list"
  and iterate_entries :: "pth \<Rightarrow> (string \<times> node) list \<Rightarrow> pth list" where
  "iterate_directories p (File c) = []"
| "iterate_directories p (Dir es) = p # iterate_entries p es"
| "iterate_entries p [] = []"
| "iterate_entries p (e # es) = iterate_directories (p @ [fst e]) (snd e) @ iterate_entries p es"

definition rglob :: "filesystem \<Rightarrow> pth \<Rightarrow> string \<Rightarrow> pth list" where
  "rglob fs p nm =
     (case stat fs p of
        Inl e \<Rightarrow> []
      | Inr nd \<Rightarrow> map (\<lambda>d. d @ [nm]) (filter (\<lambda>d. exists fs (d @ [nm])) (iterate_directories p nd)))"

text \<open>
  \<^verbatim>\<open>open(p, "w")\<close> followed by writing \<open>c\<close> and closing: the parent must be a directory
  and the target must not be one; an existing file is truncated, a missing one is created
  as a new last entry of its directory.
\<close>

fun write_file :: "filesystem \<Rightarrow> pth \<Rightarrow> string \<Rightarrow> error + filesystem" where
  "write_file (File old) [] c = Inr (File c)"
| "write_file (Dir es) [] c = Inl IsADirectoryError"
| "write_file (File old) (n # ns) c = Inl NotADirectoryError"
| "write_file (Dir es) (n # ns) c =
     (case map_of es n of
        None \<Rightarrow> (if ns = [] then Inr (Dir (AList.update n (File c) es)) else Inl FileNotFoundError)
      | Some nd \<Rightarrow>
          (case write_file nd ns c of
             Inl e \<Rightarrow> Inl e
           | Inr nd' \<Rightarrow> Inr (Dir (AList.update n nd' es))))"

text \<open>\<^verbatim>\<open>Path.name\<close> and \<^verbatim>\<open>str(Path)\<close> of an absolute POSIX path.\<close>

definition path_name :: "pth \<Rightarrow> string" where
  "path_name p = (if p = [] then [] else last p)"

definition str_path :: "pth \<Rightarrow> string" where
  "str_path p = (if p = [] then ''/'' else concat (map (\<lambda>c. CHR ''/'' # c) p))"

section \<open>The detectors\<close>

text \<open>The loop over \<^verbatim>\<open>freecad_dir.iterdir()\<close> in \<^verbatim>\<open>find_new_style\<close>.\<close>

fun find_new_style_subs :: "filesystem \<Rightarrow> pth list \<Rightarrow> bool" where
  "find_new_style_subs fs [] = False"
| "find_new_style_subs fs (sub # subs) =
     (if \<not> is_dir fs sub then find_new_style_subs fs subs
      else
        (let init_file = sub @ [''__init__.py''];
             gui1 = sub @ [''init_gui.py''];
             gui2 = sub @ [''InitGui.py'']
         in if exists fs init_file \<and> (exists fs gui1 \<or> exists fs gui2) then True
            else find_new_style_subs fs subs))"

text \<open>The loop over \<^verbatim>\<open>path.rglob("freecad")\<close>; falling out of it returns \<^verbatim>\<open>False\<close>.\<close>

fun find_new_style_dirs :: "filesystem \<Rightarrow> pth list \<Rightarrow> error + bool" where
  "find_new_style_dirs fs [] = Inr False"
| "find_new_style_dirs fs (freecad_dir # rest) =
     (if is_dir fs freecad_dir then
        (case iterdir fs freecad_dir of
           Inl e \<Rightarrow> Inl e
         | Inr subs \<Rightarrow>
             if find_new_style_subs fs subs then Inr True
             else find_new_style_dirs fs rest)
      else find_new_style_dirs fs rest)"

definition find_new_style :: "filesystem \<Rightarrow> pth \<Rightarrow> error + bool" where
  "find_new_style fs p = find_new_style_dirs fs (rglob fs p ''freecad'')"

definition find_old_style :: "filesystem \<Rightarrow> pth \<Rightarrow> bool" where
  "find_old_style fs p =
     (let old_init = (exists fs (p @ [''Init.py'']) \<or> exists fs (p @ [''init.py'']));
          old_gui = (exists fs (p @ [''InitGui.py'']) \<or> exists fs (p @ [''initgui.py'']))
      in old_init \<and> old_gui)"

section \<open>Classification and scan\<close>

record classification =
  name :: string
  style :: string
  path :: string
  old_style :: bool
  new_style :: bool

definition classify_workbench :: "filesystem \<Rightarrow> pth \<Rightarrow> error + classification" where
  "classify_workbench fs p =
     (let nm = path_name p;
          old = find_old_style fs p
      in case find_new_style fs p of
           Inl e \<Rightarrow> Inl e
         | Inr new \<Rightarrow>
             (let st = (if old \<and> \<not> new then ''old''
                        else if new \<and> \<not> old then ''new''
                        else if old \<and> new then ''mixed''
                        else ''unknown'')
              in Inr \<lparr>name = nm, style = st, path = str_path p,
                       old_style = old, new_style = new\<rparr>))"

fun scan_addons_loop ::
  "filesystem \<Rightarrow> pth list \<Rightarrow> classification list \<Rightarrow> error + classification list" where
  "scan_addons_loop fs [] results = Inr results"
| "scan_addons_loop fs (child # children) results =
     (if is_dir fs child \<and> path_name child \<noteq> ''utils'' then
        (case classify_workbench fs child of
           Inl e \<Rightarrow> Inl e
         | Inr r \<Rightarrow> scan_addons_loop fs children (results @ [r]))
      else scan_addons_loop fs children results)"

definition scan_addons :: "filesystem \<Rightarrow> pth \<Rightarrow> error + classification list" where
  "scan_addons fs root =
     (case iterdir fs root of
        Inl e \<Rightarrow> Inl e
      | Inr children \<Rightarrow> scan_addons_loop fs children [])"

section \<open>The detectors when a lookup raises\<close>
















section \<open>The report writer\<close>

text \<open>
  \<^verbatim>\<open>csv.DictWriter\<close> with the default dialect: fields joined by commas, every row ended by
  CR LF, a field quoted only when it holds a comma, a double quote, CR or LF, and a double
  quote inside a quoted field written twice. A field that is not a string is written as
  \<^verbatim>\<open>str\<close> of it, so the two booleans come out as \<^verbatim>\<open>True\<close> and \<^verbatim>\<open>False\<close>.
\<close>

definition fieldnames :: "string list" where
  "fieldnames = [''name'', ''style'', ''path'', ''old_style'', ''new_style'']"

definition str_bool :: "bool \<Rightarrow> string" where
  "str_bool b = (if b then ''True'' else ''False'')"

definition csv_special :: "char \<Rightarrow> bool" where
  "csv_special c = (c = CHR '','' \<or> c = CHR 0x22 \<or> c = CHR 0x0D \<or> c = CHR 0x0A)"

definition csv_field :: "string \<Rightarrow> string" where
  "csv_field s =
     (if list_ex csv_special s
      then [CHR 0x22] @ concat (map (\<lambda>c. if c = CHR 0x22 then [c, c] else [c]) s) @ [CHR 0x22]
      else s)"

fun join :: "string \<Rightarrow> string list \<Rightarrow> string" where
  "join sep [] = []"
| "join sep [x] = x"
| "join sep (x # y # ys) = x @ sep @ join sep (y # ys)"

definition writerow :: "string list \<Rightarrow> string" where
  "writerow row = join '','' (map csv_field row) @ [CHR 0x0D, CHR 0x0A]"

text \<open>\<^verbatim>\<open>DictWriter._dict_to_list\<close>: the values of the row in the order of the field names.\<close>

definition dict_to_list :: "classification \<Rightarrow> string list" where
  "dict_to_list r = [name r, style r, path r, str_bool (old_style r), str_bool (new_style r)]"

text \<open>
  The file is opened with \<^verbatim>\<open>encoding="utf-8"\<close>. Strings here are the bytes of the names as the
  filesystem holds them; Python decodes a name with \<^verbatim>\<open>surrogateescape\<close>, so a line can be
  encoded again exactly when its bytes are well-formed UTF-8 (no overlong form, no surrogate,
  nothing above U+10FFFF), and \<^verbatim>\<open>UnicodeEncodeError\<close> is raised otherwise.
\<close>

definition byte_in :: "nat \<Rightarrow> nat \<Rightarrow> char \<Rightarrow> bool" where
  "byte_in lo hi c = (lo \<le> of_char c \<and> (of_char c :: nat) \<le> hi)"

text \<open>The number of bytes of the well-formed sequence a string starts with, 0 when there is none.\<close>

definition utf8_first :: "string \<Rightarrow> nat" where
  "utf8_first s =
     (case s of
        [] \<Rightarrow> 0
      | a # s1 \<Rightarrow>
          if byte_in 0x00 0x7F a then 1
          else (case s1 of
            [] \<Rightarrow> 0
          | b # s2 \<Rightarrow>
              if byte_in 0xC2 0xDF a \<and> byte_in 0x80 0xBF b then 2
              else (case s2 of
                [] \<Rightarrow> 0
              | c # s3 \<Rightarrow>
                  if (byte_in 0xE0 0xE0 a \<and> byte_in 0xA0 0xBF b \<or>
                      byte_in 0xE1 0xEC a \<and> byte_in 0x80 0xBF b \<or>
                      byte_in 0xED 0xED a \<and> byte_in 0x80 0x9F b \<or>
                      byte_in 0xEE 0xEF a \<and> byte_in 0x80 0xBF b) \<and> byte_in 0x80 0xBF c then 3
                  else (case s3 of
                    [] \<Rightarrow> 0
                  | d # s4 \<Rightarrow>
                      if (byte_in 0xF0 0xF0 a \<and> byte_in 0x90 0xBF b \<or>
                          byte_in 0xF1 0xF3 a \<and> byte_in 0x80 0xBF b \<or>
                          byte_in 0xF4 0xF4 a \<and> byte_in 0x80 0x8F b) \<and>
                         byte_in 0x80 0xBF c \<and> byte_in 0x80 0xBF d then 4
                      else 0))))"

function valid_utf8 :: "string \<Rightarrow> bool" where
  "valid_utf8 s =
     (if s = [] then True
      else if utf8_first s = 0 then False
      else valid_utf8 (drop (utf8_first s) s))"
  by pat_completeness auto
termination
  by (relation "measure length") auto

declare valid_utf8.simps [simp del]

text \<open>
  The loop of \<^verbatim>\<open>write_csv\<close>, appending to what was written so far. Writing a line encodes
  it; a line that cannot be encoded raises and leaves what was written before it.
\<close>

fun write_csv_rows :: "classification list \<Rightarrow> string \<Rightarrow> (error \<times> string) + string" where
  "write_csv_rows [] f = Inr f"
| "write_csv_rows (row # rows) f =
     (let line = writerow (dict_to_list row)
      in if valid_utf8 line then write_csv_rows rows (f @ line)
         else Inl (UnicodeEncodeError, f))"

text \<open>
  \<^verbatim>\<open>open\<close> comes first and its error wins. Once the file is open it is truncated, and when
  the \<^verbatim>\<open>with\<close> block is left, by its end or by an exception, it holds what was written up
  to there. A failure carries the error and the tree that is left behind.
\<close>

definition write_csv ::
  "filesystem \<Rightarrow> classification list \<Rightarrow> pth \<Rightarrow> (error \<times> filesystem) + filesystem" where
  "write_csv fs results csv_path =
     (case write_csv_rows results (writerow fieldnames) of
        Inr text \<Rightarrow>
          (case write_file fs csv_path text of
             Inl e \<Rightarrow> Inl (e, fs)
           | Inr fs' \<Rightarrow> Inr fs')
      | Inl (e, text) \<Rightarrow>
          (case write_file fs csv_path text of
             Inl e' \<Rightarrow> Inl (e', fs)
           | Inr fs' \<Rightarrow> Inl (e, fs')))"

section \<open>The console summary\<close>

definition digit :: "nat \<Rightarrow> char" where
  "digit d = ''0123456789'' ! d"

function str_nat :: "nat \<Rightarrow> string" where
  "str_nat n = (if n < 10 then [digit n] else str_nat (n div 10) @ [digit (n mod 10)])"
  by pat_completeness auto
termination
  by (relation "measure id") auto

declare str_nat.simps [simp del]

text \<open>\<^verbatim>\<open>sum(r["style"] == s for r in results)\<close>: a sum of booleans.\<close>

definition count_style :: "string \<Rightarrow> classification list \<Rightarrow> nat" where
  "count_style s results = sum_list (map (\<lambda>r. if style r = s then 1 else 0) results)"

text \<open>The strings handed to \<^verbatim>\<open>print\<close>, in order.\<close>

definition print_summary :: "classification list \<Rightarrow> string list" where
  "print_summary results =
     (let totals_old = count_style ''old'' results;
          totals_new = count_style ''new'' results;
          totals_mixed = count_style ''mixed'' results;
          totals_unknown = count_style ''unknown'' results
      in [CHR 0x0A # ''Summary'',
          ''----------------------------'',
          ''Total addons scanned : '' @ str_nat (length results),
          ''Old-style            : '' @ str_nat totals_old,
          ''New-style            : '' @ str_nat totals_new,
          ''Mixed                : '' @ str_nat totals_mixed,
          ''Unknown              : '' @ str_nat totals_unknown,
          ''----------------------------''])"

section \<open>The entry point\<close>

text \<open>
  \<open>script_path\<close> is \<^verbatim>\<open>Path(__file__).resolve()\<close>. The result is the filesystem after the
  run and what was printed; \<^verbatim>\<open>parents[1]\<close> raises on a path with fewer than two components.
\<close>

definition main :: "pth \<Rightarrow> filesystem \<Rightarrow> error + (filesystem \<times> string list)" where
  "main script_path fs =
     (if length script_path < 2 then Inl IndexError
      else
        (let addons_root = butlast (butlast script_path);
             out1 = [''Scanning: '' @ str_path addons_root]
         in case scan_addons fs addons_root of
              Inl e \<Rightarrow> Inl e
            | Inr results \<Rightarrow>
                (let csv_path = butlast script_path @ [''workbench_report.csv'']
                 in case write_csv fs results csv_path of
                      Inl (e, fs') \<Rightarrow> Inl e
                    | Inr fs' \<Rightarrow>
                        Inr (fs', out1 @ [''CSV written to: '' @ str_path csv_path]
                                  @ print_summary results))))"

section \<open>A sample tree\<close>

text \<open>
  A checkout with an old-style addon whose gui marker is a directory, a new-style addon
  whose markers are both directories, an addon with nothing, a plain file, and the
  directory \<^verbatim>\<open>utils\<close> that holds the script (and marker files of its own).
\<close>

definition sample_tree :: filesystem where
  "sample_tree =
     Dir [(''w'',
       Dir [(''A'', Dir [(''Init.py'', File []), (''InitGui.py'', Dir [])]),
            (''B'', Dir [(''freecad'',
               Dir [(''m'', Dir [(''__init__.py'', Dir []), (''InitGui.py'', Dir [])])])]),
            (''D'', Dir []),
            (''README'', File ''x''),
            (''utils'', Dir [(''c.py'', File []), (''Init.py'', File []),
               (''InitGui.py'', File [])])])]"

section \<open>Facts about paths\<close>

lemma stat_append:
  "stat fs (p @ q) = (case stat fs p of Inl e \<Rightarrow> Inl e | Inr nd \<Rightarrow> stat nd q)"
  by (induction fs p rule: stat.induct) (auto split: option.splits)

lemma exists_Nil: "exists fs [] = True"
  by (simp add: exists_def)

lemma exists_File_Cons: "exists (File c) (n # ns) = False"
  by (simp add: exists_def)

lemma exists_Dir_Cons:
  "exists (Dir es) (n # ns) = (case map_of es n of None \<Rightarrow> False | Some nd \<Rightarrow> exists nd ns)"
  by (simp add: exists_def split: option.splits)

lemma is_dir_Nil: "is_dir fs [] = (case fs of File c \<Rightarrow> False | Dir es \<Rightarrow> True)"
  by (simp add: is_dir_def split: node.splits)

lemma is_dir_File_Cons: "is_dir (File c) (n # ns) = False"
  by (simp add: is_dir_def)

lemma is_dir_Dir_Cons:
  "is_dir (Dir es) (n # ns) = (case map_of es n of None \<Rightarrow> False | Some nd \<Rightarrow> is_dir nd ns)"
  by (simp add: is_dir_def split: option.splits)

lemma exists_append:
  "exists fs (p @ q) = (case stat fs p of Inl e \<Rightarrow> False | Inr nd \<Rightarrow> exists nd q)"
  by (simp add: exists_def stat_append split: sum.splits)

lemma is_dir_append:
  "is_dir fs (p @ q) = (case stat fs p of Inl e \<Rightarrow> False | Inr nd \<Rightarrow> is_dir nd q)"
  by (simp add: is_dir_def stat_append split: sum.splits)

lemma exists_child:
  "exists fs (p @ [n]) =
     (case stat fs p of Inr (Dir es) \<Rightarrow> n \<in> fst ` set es | Inr (File c) \<Rightarrow> False | Inl e \<Rightarrow> False)"
  by (auto simp: exists_append exists_File_Cons exists_Dir_Cons exists_Nil map_of_eq_None_iff
      split: sum.splits node.splits option.splits dest: map_of_SomeD intro: rev_image_eqI)

lemma is_dir_exists: "is_dir fs p \<Longrightarrow> exists fs p"
  by (auto simp: is_dir_def exists_def split: sum.splits)

lemma is_dir_prefix: "is_dir fs (p @ q) \<Longrightarrow> is_dir fs p"
proof (induction fs p rule: stat.induct)
  case (1 nd)
  then show ?case by (cases q; cases nd) (simp_all add: is_dir_Nil is_dir_File_Cons)
next
  case (2 c n ns)
  then show ?case by (simp add: is_dir_File_Cons)
next
  case (3 es n ns)
  then show ?case by (auto simp: is_dir_Dir_Cons split: option.splits)
qed

lemma exists_parent_is_dir: "exists fs (p @ n # q) \<Longrightarrow> is_dir fs p"
  by (auto simp: exists_append is_dir_def exists_File_Cons split: sum.splits node.splits)

lemma iterate_prefix:
  "d \<in> set (iterate_directories p nd) \<Longrightarrow> \<exists>q. d = p @ q"
  "d \<in> set (iterate_entries p es) \<Longrightarrow> \<exists>q. d = p @ q"
proof (induction p nd and p es arbitrary: d and d rule: iterate_directories_iterate_entries.induct)
  case (1 p c)
  then show ?case by simp
next
  case (2 p es)
  then show ?case by auto
next
  case (3 p)
  then show ?case by simp
next
  case (4 p e es)
  from 4(3) consider "d \<in> set (iterate_directories (p @ [fst e]) (snd e))" | "d \<in> set (iterate_entries p es)"
    by auto
  then show ?case
  proof cases
    case 1
    from 4(1)[OF this] obtain q where "d = (p @ [fst e]) @ q" ..
    then show ?thesis by simp
  next
    case 2
    from 4(2)[OF this] show ?thesis .
  qed
qed

lemma iterate_entries_mono:
  "map_of es n = Some nd \<Longrightarrow> set (iterate_directories (p @ [n]) nd) \<subseteq> set (iterate_entries p es)"
  by (induction es) (auto split: if_splits)

lemma iterate_complete:
  "stat nd q = Inr (Dir es) \<Longrightarrow> p @ q \<in> set (iterate_directories p nd)"
proof (induction q arbitrary: p nd)
  case Nil
  then show ?case by simp
next
  case (Cons n ns)
  then obtain es0 nd' where nd: "nd = Dir es0" and m: "map_of es0 n = Some nd'"
    and s: "stat nd' ns = Inr (Dir es)"
    by (cases nd) (auto split: option.splits)
  from Cons.IH[OF s] have "(p @ [n]) @ ns \<in> set (iterate_directories (p @ [n]) nd')" .
  with iterate_entries_mono[OF m] show ?case by (auto simp: nd)
qed

section \<open>The detectors in terms of the tree\<close>

lemma iterdir_is_dir:
  "is_dir fs p \<Longrightarrow> \<exists>es. stat fs p = Inr (Dir es) \<and> iterdir fs p = Inr (map (\<lambda>e. p @ [fst e]) es)"
  by (auto simp: is_dir_def iterdir_def split: sum.splits node.splits)

lemma find_new_style_subs_iff:
  "find_new_style_subs fs subs =
     (\<exists>sub \<in> set subs. is_dir fs sub \<and> exists fs (sub @ [''__init__.py'']) \<and>
        (exists fs (sub @ [''init_gui.py'']) \<or> exists fs (sub @ [''InitGui.py''])))"
  by (induction subs) (auto simp: Let_def)

lemma find_new_style_dirs_iff:
  "find_new_style_dirs fs fds =
     Inr (\<exists>fd \<in> set fds. is_dir fs fd \<and>
            (\<exists>subs. iterdir fs fd = Inr subs \<and> find_new_style_subs fs subs))"
proof (induction fds)
  case Nil
  then show ?case by simp
next
  case (Cons fd fds)
  show ?case
  proof (cases "is_dir fs fd")
    case True
    then obtain subs where "iterdir fs fd = Inr subs"
      using iterdir_is_dir by blast
    with True Cons show ?thesis by auto
  next
    case False
    with Cons show ?thesis by simp
  qed
qed

lemma children_is_dir:
  assumes "iterdir fs fd = Inr subs"
  shows "(\<exists>sub \<in> set subs. is_dir fs sub \<and> P sub) = (\<exists>s. is_dir fs (fd @ [s]) \<and> P (fd @ [s]))"
proof
  assume "\<exists>sub \<in> set subs. is_dir fs sub \<and> P sub"
  then obtain sub where "sub \<in> set subs" "is_dir fs sub" "P sub" by blast
  moreover from assms \<open>sub \<in> set subs\<close> obtain s where "sub = fd @ [s]"
    by (auto simp: iterdir_def split: sum.splits node.splits)
  ultimately show "\<exists>s. is_dir fs (fd @ [s]) \<and> P (fd @ [s])" by blast
next
  assume "\<exists>s. is_dir fs (fd @ [s]) \<and> P (fd @ [s])"
  then obtain s where d: "is_dir fs (fd @ [s])" and P: "P (fd @ [s])" by blast
  from d have "exists fs (fd @ [s])" by (rule is_dir_exists)
  with assms have "fd @ [s] \<in> set subs"
    by (force simp: exists_child iterdir_def split: sum.splits node.splits)
  with d P show "\<exists>sub \<in> set subs. is_dir fs sub \<and> P sub" by blast
qed

lemma set_rglob:
  "set (rglob fs p nm) = {p @ d @ [nm] | d. is_dir fs (p @ d) \<and> exists fs (p @ d @ [nm])}"
proof (cases "stat fs p")
  case (Inl e)
  then show ?thesis
    by (auto simp: rglob_def is_dir_append)
next
  case (Inr nd)
  show ?thesis
  proof (intro set_eqI iffI)
    fix x assume "x \<in> set (rglob fs p nm)"
    then obtain d0 where d0: "d0 \<in> set (iterate_directories p nd)" and e: "exists fs (d0 @ [nm])"
      and x: "x = d0 @ [nm]"
      by (auto simp: rglob_def Inr)
    from iterate_prefix(1)[OF d0] obtain d where "d0 = p @ d" ..
    moreover from e have "is_dir fs d0"
      by (rule exists_parent_is_dir)
    ultimately show "x \<in> {p @ d @ [nm] | d. is_dir fs (p @ d) \<and> exists fs (p @ d @ [nm])}"
      using e x by auto
  next
    fix x assume "x \<in> {p @ d @ [nm] | d. is_dir fs (p @ d) \<and> exists fs (p @ d @ [nm])}"
    then obtain d where x: "x = p @ d @ [nm]" and dd: "is_dir fs (p @ d)"
      and e: "exists fs (p @ d @ [nm])" by blast
    from dd Inr obtain es where "stat nd d = Inr (Dir es)"
      by (auto simp: is_dir_def stat_append split: sum.splits node.splits)
    then have "p @ d \<in> set (iterate_directories p nd)"
      by (rule iterate_complete)
    with e show "x \<in> set (rglob fs p nm)"
      by (auto simp: rglob_def Inr x)
  qed
qed

lemma rglob_dirs_iff:
  "(\<exists>fd \<in> set (rglob fs p nm). is_dir fs fd \<and> Q fd) =
   (\<exists>d. is_dir fs (p @ d @ [nm]) \<and> Q (p @ d @ [nm]))"
proof
  assume "\<exists>fd \<in> set (rglob fs p nm). is_dir fs fd \<and> Q fd"
  then obtain fd where fd: "fd \<in> set (rglob fs p nm)" and q: "is_dir fs fd" "Q fd"
    by blast
  from fd obtain d where "fd = p @ d @ [nm]"
    unfolding set_rglob by blast
  with q show "\<exists>d. is_dir fs (p @ d @ [nm]) \<and> Q (p @ d @ [nm])"
    by blast
next
  assume "\<exists>d. is_dir fs (p @ d @ [nm]) \<and> Q (p @ d @ [nm])"
  then obtain d where isd: "is_dir fs (p @ d @ [nm])" and q: "Q (p @ d @ [nm])"
    by blast
  from isd have e: "exists fs (p @ d @ [nm])"
    by (rule is_dir_exists)
  from isd have "is_dir fs ((p @ d) @ [nm])"
    by simp
  then have "is_dir fs (p @ d)"
    by (rule is_dir_prefix)
  with e have "p @ d @ [nm] \<in> set (rglob fs p nm)"
    unfolding set_rglob by blast
  with isd q show "\<exists>fd \<in> set (rglob fs p nm). is_dir fs fd \<and> Q fd"
    by blast
qed

lemma dir_subs_iff:
  "(is_dir fs fd \<and> (\<exists>subs. iterdir fs fd = Inr subs \<and> find_new_style_subs fs subs)) =
   (\<exists>s. is_dir fs (fd @ [s]) \<and> exists fs (fd @ [s, ''__init__.py'']) \<and>
      (exists fs (fd @ [s, ''init_gui.py'']) \<or> exists fs (fd @ [s, ''InitGui.py''])))"
  (is "?L = ?R")
proof -
  let ?M = "\<lambda>sub. exists fs (sub @ [''__init__.py'']) \<and>
        (exists fs (sub @ [''init_gui.py'']) \<or> exists fs (sub @ [''InitGui.py'']))"
  have R: "?R = (\<exists>s. is_dir fs (fd @ [s]) \<and> ?M (fd @ [s]))"
    by simp
  show ?thesis
  proof (cases "is_dir fs fd")
    case True
    then obtain subs where it: "iterdir fs fd = Inr subs"
      using iterdir_is_dir by blast
    have "?L = find_new_style_subs fs subs"
      using True it by simp
    also have "\<dots> = (\<exists>sub \<in> set subs. is_dir fs sub \<and> ?M sub)"
      by (rule find_new_style_subs_iff)
    also have "\<dots> = (\<exists>s. is_dir fs (fd @ [s]) \<and> ?M (fd @ [s]))"
      by (rule children_is_dir[OF it])
    finally show ?thesis
      unfolding R .
  next
    case False
    have "\<not> is_dir fs (fd @ [s])" for s
      using False is_dir_prefix[of fs fd "[s]"] by blast
    with False show ?thesis
      by blast
  qed
qed

lemma find_new_style_char:
  "find_new_style fs p =
     Inr (\<exists>d s. is_dir fs (p @ d @ [''freecad'', s]) \<and>
            exists fs (p @ d @ [''freecad'', s, ''__init__.py'']) \<and>
            (exists fs (p @ d @ [''freecad'', s, ''init_gui.py'']) \<or>
             exists fs (p @ d @ [''freecad'', s, ''InitGui.py''])))"
proof -
  have "find_new_style fs p =
      Inr (\<exists>d. is_dir fs (p @ d @ [''freecad'']) \<and>
             (\<exists>subs. iterdir fs (p @ d @ [''freecad'']) = Inr subs \<and> find_new_style_subs fs subs))"
    unfolding find_new_style_def find_new_style_dirs_iff rglob_dirs_iff ..
  also have "\<dots> = Inr (\<exists>d s. is_dir fs ((p @ d @ [''freecad'']) @ [s]) \<and>
            exists fs ((p @ d @ [''freecad'']) @ [s, ''__init__.py'']) \<and>
            (exists fs ((p @ d @ [''freecad'']) @ [s, ''init_gui.py'']) \<or>
             exists fs ((p @ d @ [''freecad'']) @ [s, ''InitGui.py''])))"
    unfolding dir_subs_iff ..
  finally show ?thesis
    by (simp only: append_assoc append_Cons append_Nil)
qed

section \<open>Writing a file\<close>

lemma exists_write_file:
  "write_file fs w c = Inr fs' \<Longrightarrow> exists fs' q = (exists fs q \<or> q = w)"
proof (induction fs w c arbitrary: fs' q rule: write_file.induct)
  case (1 old c)
  then show ?case by (cases q) (auto simp: exists_Nil exists_File_Cons)
next
  case (2 es c)
  then show ?case by simp
next
  case (3 old n ns c)
  then show ?case by simp
next
  case (4 es n ns c)
  show ?case
  proof (cases q)
    case Nil
    then show ?thesis by (simp add: exists_Nil)
  next
    case (Cons m ms)
    show ?thesis
    proof (cases "map_of es n")
      case None
      with 4(2) have ns: "ns = []" and fs': "fs' = Dir (AList.update n (File c) es)"
        by (auto split: if_splits)
      show ?thesis
        using None by (cases ms) (auto simp: Cons ns fs' exists_Dir_Cons exists_Nil exists_File_Cons update_conv')
    next
      case (Some nd)
      with 4(2) obtain nd' where w: "write_file nd ns c = Inr nd'"
        and fs': "fs' = Dir (AList.update n nd' es)"
        by (auto split: sum.splits)
      from 4(1)[OF Some w] have "exists nd' ms = (exists nd ms \<or> ms = ns)" .
      then show ?thesis
        using Some by (auto simp: Cons fs' exists_Dir_Cons update_conv')
    qed
  qed
qed

lemma is_dir_write_file:
  "write_file fs w c = Inr fs' \<Longrightarrow> is_dir fs' q = is_dir fs q"
proof (induction fs w c arbitrary: fs' q rule: write_file.induct)
  case (1 old c)
  then show ?case by (cases q) (auto simp: is_dir_Nil is_dir_File_Cons)
next
  case (2 es c)
  then show ?case by simp
next
  case (3 old n ns c)
  then show ?case by simp
next
  case (4 es n ns c)
  show ?case
  proof (cases q)
    case Nil
    with 4(2) show ?thesis by (auto simp: is_dir_Nil split: option.splits if_splits sum.splits)
  next
    case (Cons m ms)
    show ?thesis
    proof (cases "map_of es n")
      case None
      with 4(2) have ns: "ns = []" and fs': "fs' = Dir (AList.update n (File c) es)"
        by (auto split: if_splits)
      show ?thesis
        using None by (cases ms) (auto simp: Cons ns fs' is_dir_Dir_Cons is_dir_Nil is_dir_File_Cons update_conv')
    next
      case (Some nd)
      with 4(2) obtain nd' where w: "write_file nd ns c = Inr nd'"
        and fs': "fs' = Dir (AList.update n nd' es)"
        by (auto split: sum.splits)
      from 4(1)[OF Some w] have "is_dir nd' ms = is_dir nd ms" .
      then show ?thesis
        using Some by (auto simp: Cons fs' is_dir_Dir_Cons update_conv')
    qed
  qed
qed

lemma stat_write_file_self:
  "write_file fs w c = Inr fs' \<Longrightarrow> stat fs' w = Inr (File c)"
proof (induction fs w c arbitrary: fs' rule: write_file.induct)
  case (4 es n ns c)
  then show ?case
    by (auto simp: update_conv' split: option.splits if_splits sum.splits)
qed auto

lemma write_file_again:
  "write_file fs w c = Inr fs' \<Longrightarrow> write_file fs' w c = Inr fs'"
proof (induction fs w c arbitrary: fs' rule: write_file.induct)
  case (4 es n ns c)
  then show ?case
    by (auto simp: update_conv' split: option.splits if_splits sum.splits)
qed auto

lemma write_file_ok:
  "is_dir fs p \<Longrightarrow> \<not> is_dir fs (p @ [n]) \<Longrightarrow> \<exists>fs'. write_file fs (p @ [n]) c = Inr fs'"
proof (induction fs p arbitrary: rule: stat.induct)
  case (1 nd)
  then show ?case
    by (cases nd) (auto simp: is_dir_Nil is_dir_Dir_Cons split: option.splits node.splits)
next
  case (2 c' m ms)
  then show ?case by (simp add: is_dir_File_Cons)
next
  case (3 es m ms)
  then show ?case
    by (auto simp: is_dir_Dir_Cons split: option.splits)
qed

lemma stat_write_file_other:
  "write_file fs (r @ u # rest) c = Inr fs' \<Longrightarrow> x \<noteq> u \<Longrightarrow>
   stat fs' (r @ x # q) = stat fs (r @ x # q)"
proof (induction r arbitrary: fs fs')
  case Nil
  then show ?case
    by (cases fs) (auto simp: update_conv' split: option.splits if_splits sum.splits)
next
  case (Cons a r)
  then show ?case
    by (cases fs) (auto simp: update_conv' split: option.splits if_splits sum.splits)
qed

lemma iterdir_Dir_Cons:
  "iterdir (Dir es) (a # r) =
     (case map_of es a of
        None \<Rightarrow> Inl FileNotFoundError
      | Some nd \<Rightarrow> map_sum id (map ((#) a)) (iterdir nd r))"
  by (simp add: iterdir_def comp_def split: option.splits sum.splits node.splits)

lemma iterdir_write_file:
  "write_file fs (r @ u # v # rest) c = Inr fs' \<Longrightarrow> iterdir fs' r = iterdir fs r"
proof (induction r arbitrary: fs fs')
  case Nil
  then obtain es nd nd' where fs: "fs = Dir es" and m: "map_of es u = Some nd"
    and fs': "fs' = Dir (AList.update u nd' es)"
    by (cases fs) (auto split: option.splits if_splits sum.splits)
  from m have "u \<in> set (map fst es)"
    by (metis map_of_eq_None_iff option.distinct(1) set_map)
  then have "map fst (AList.update u nd' es) = map fst es"
    by (simp add: update_keys)
  then have "map (\<lambda>n. [n]) (map fst (AList.update u nd' es)) = map (\<lambda>n. [n]) (map fst es)"
    by simp
  then show ?case
    by (simp add: iterdir_def fs fs' comp_def)
next
  case (Cons a r)
  then obtain es nd nd' where fs: "fs = Dir es" and m: "map_of es a = Some nd"
    and w: "write_file nd (r @ u # v # rest) c = Inr nd'"
    and fs': "fs' = Dir (AList.update a nd' es)"
    by (cases fs) (auto split: option.splits if_splits sum.splits)
  from Cons.IH[OF w] have "iterdir nd' r = iterdir nd r" .
  then show ?case
    by (simp add: iterdir_Dir_Cons fs fs' m update_conv')
qed

section \<open>The scan does not see the report\<close>

lemma exists_write_report:
  assumes "write_file fs (w @ [''workbench_report.csv'']) c = Inr fs'"
    and "x \<noteq> ''workbench_report.csv''"
  shows "exists fs' (q @ [x]) = exists fs (q @ [x])"
  using exists_write_file[OF assms(1), of "q @ [x]"] assms(2) by simp

lemma find_old_style_write:
  assumes "write_file fs (w @ [''workbench_report.csv'']) c = Inr fs'"
  shows "find_old_style fs' p = find_old_style fs p"
  by (simp add: find_old_style_def exists_write_report[OF assms])

lemma find_new_style_write:
  assumes "write_file fs (w @ [''workbench_report.csv'']) c = Inr fs'"
  shows "find_new_style fs' p = find_new_style fs p"
proof -
  have e: "exists fs' (p @ d @ [''freecad'', s, x]) = exists fs (p @ d @ [''freecad'', s, x])"
    if "x \<noteq> ''workbench_report.csv''" for d s x
    using exists_write_report[OF assms that, of "p @ d @ [''freecad'', s]"] by simp
  show ?thesis
    unfolding find_new_style_char is_dir_write_file[OF assms]
    by (simp add: e)
qed

lemma classify_workbench_write:
  assumes "write_file fs (w @ [''workbench_report.csv'']) c = Inr fs'"
  shows "classify_workbench fs' p = classify_workbench fs p"
  by (simp add: classify_workbench_def find_old_style_write[OF assms] find_new_style_write[OF assms])

lemma scan_addons_loop_write:
  assumes "write_file fs (w @ [''workbench_report.csv'']) c = Inr fs'"
  shows "scan_addons_loop fs' children results = scan_addons_loop fs children results"
  by (induction children arbitrary: results)
    (simp_all add: classify_workbench_write[OF assms] is_dir_write_file[OF assms]
      split: sum.splits)

lemma scan_addons_write:
  assumes "write_file fs (root @ [d, ''workbench_report.csv'']) c = Inr fs'"
  shows "scan_addons fs' root = scan_addons fs root"
proof -
  from assms have w: "write_file fs ((root @ [d]) @ [''workbench_report.csv'']) c = Inr fs'"
    by simp
  have "iterdir fs' root = iterdir fs root"
    using iterdir_write_file[of fs root d "''workbench_report.csv''" "[]" c fs'] assms by simp
  then show ?thesis
    by (simp add: scan_addons_def scan_addons_loop_write[OF w] split: sum.splits)
qed

lemma script_path_split:
  assumes "\<not> length sp < 2"
  shows "butlast sp @ [x] = butlast (butlast sp) @ [last (butlast sp), x]"
proof -
  from assms have "butlast sp \<noteq> []"
    by (cases sp; cases "tl sp") auto
  then have "butlast (butlast sp) @ [last (butlast sp)] = butlast sp"
    by (rule append_butlast_last_id)
  then show ?thesis
    by (metis append.assoc append_Cons append_Nil)
qed

section \<open>Scan, report and summary\<close>

lemma classify_workbench_total:
  "\<exists>r. classify_workbench fs p = Inr r"
  by (simp add: classify_workbench_def find_new_style_char Let_def)

lemma classify_workbench_name:
  "classify_workbench fs p = Inr r \<Longrightarrow> name r = path_name p"
  by (auto simp: classify_workbench_def Let_def split: sum.splits)

lemma classify_workbench_style:
  "classify_workbench fs p = Inr r \<Longrightarrow>
   style r = ''old'' \<or> style r = ''new'' \<or> style r = ''mixed'' \<or> style r = ''unknown''"
proof -
  assume a: "classify_workbench fs p = Inr r"
  obtain new where new: "find_new_style fs p = Inr new"
    by (simp add: find_new_style_char)
  show ?thesis
    using a by (cases "find_old_style fs p"; cases new)
      (auto simp: classify_workbench_def Let_def new)
qed

lemma scan_addons_loop_results:
  "\<exists>rs. scan_addons_loop fs children results = Inr (results @ rs) \<and>
     map Inr rs = map (classify_workbench fs)
       (filter (\<lambda>c. is_dir fs c \<and> path_name c \<noteq> ''utils'') children)"
proof (induction children arbitrary: results)
  case Nil
  then show ?case by simp
next
  case (Cons child children)
  show ?case
  proof (cases "is_dir fs child \<and> path_name child \<noteq> ''utils''")
    case True
    obtain r where r: "classify_workbench fs child = Inr r"
      using classify_workbench_total by blast
    from Cons[of "results @ [r]"] obtain rs where
      "scan_addons_loop fs children (results @ [r]) = Inr ((results @ [r]) @ rs)"
      "map Inr rs = map (classify_workbench fs)
         (filter (\<lambda>c. is_dir fs c \<and> path_name c \<noteq> ''utils'') children)"
      by blast
    with True r have "scan_addons_loop fs (child # children) results = Inr (results @ (r # rs)) \<and>
      map Inr (r # rs) = map (classify_workbench fs)
        (filter (\<lambda>c. is_dir fs c \<and> path_name c \<noteq> ''utils'') (child # children))"
      by simp
    then show ?thesis by blast
  next
    case False
    with Cons[of results] show ?thesis by auto
  qed
qed

lemma classified_names:
  "map Inr rs = map (classify_workbench fs) cs \<Longrightarrow> map name rs = map path_name cs"
proof (induction cs arbitrary: rs)
  case Nil
  then show ?case by simp
next
  case (Cons c cs)
  then obtain r rs' where rs: "rs = r # rs'" and r: "classify_workbench fs c = Inr r"
    and rest: "map Inr rs' = map (classify_workbench fs) cs"
    by (cases rs) auto
  from Cons.IH[OF rest] classify_workbench_name[OF r] show ?case
    by (simp add: rs)
qed

lemma classified_styles:
  "map Inr rs = map (classify_workbench fs) cs \<Longrightarrow> r \<in> set rs \<Longrightarrow>
   style r = ''old'' \<or> style r = ''new'' \<or> style r = ''mixed'' \<or> style r = ''unknown''"
proof (induction cs arbitrary: rs)
  case Nil
  then show ?case by simp
next
  case (Cons c cs)
  then obtain r0 rs' where rs: "rs = r0 # rs'" and r0: "classify_workbench fs c = Inr r0"
    and rest: "map Inr rs' = map (classify_workbench fs) cs"
    by (cases rs) auto
  from Cons.prems(2) rs consider "r = r0" | "r \<in> set rs'" by auto
  then show ?case
  proof cases
    case 1
    with classify_workbench_style[OF r0] show ?thesis by simp
  next
    case 2
    with Cons.IH[OF rest] show ?thesis by simp
  qed
qed

lemma scan_addons_styles:
  assumes "scan_addons fs root = Inr rs" and "r \<in> set rs"
  shows "style r = ''old'' \<or> style r = ''new'' \<or> style r = ''mixed'' \<or> style r = ''unknown''"
proof -
  from assms(1) obtain children where "scan_addons_loop fs children [] = Inr rs"
    by (auto simp: scan_addons_def split: sum.splits)
  with scan_addons_loop_results[of fs children "[]"] obtain cs where
    "map Inr rs = map (classify_workbench fs) cs"
    by auto
  from classified_styles[OF this assms(2)] show ?thesis .
qed

lemma count_style_total:
  "(\<And>r. r \<in> set rs \<Longrightarrow>
      style r = ''old'' \<or> style r = ''new'' \<or> style r = ''mixed'' \<or> style r = ''unknown'') \<Longrightarrow>
   count_style ''old'' rs + count_style ''new'' rs + count_style ''mixed'' rs
     + count_style ''unknown'' rs = length rs"
proof (induction rs)
  case Nil
  then show ?case by (simp add: count_style_def)
next
  case (Cons r rs)
  have "style r = ''old'' \<or> style r = ''new'' \<or> style r = ''mixed'' \<or> style r = ''unknown''"
    using Cons.prems by simp
  moreover have "count_style ''old'' rs + count_style ''new'' rs + count_style ''mixed'' rs
     + count_style ''unknown'' rs = length rs"
    using Cons by simp
  ultimately show ?case
    by (auto simp: count_style_def)
qed

lemma csv_field_str_bool: "csv_field (str_bool b) = str_bool b"
  by (simp add: csv_field_def str_bool_def csv_special_def)

lemma writerow_fieldnames:
  "writerow fieldnames = ''name,style,path,old_style,new_style'' @ [CHR 0x0D, CHR 0x0A]"
  by (simp add: writerow_def fieldnames_def csv_field_def csv_special_def)

lemma writerow_dict_to_list:
  "writerow (dict_to_list r) =
     csv_field (name r) @ '','' @ csv_field (style r) @ '','' @ csv_field (path r) @ '',''
       @ str_bool (old_style r) @ '','' @ str_bool (new_style r) @ [CHR 0x0D, CHR 0x0A]"
  by (simp add: writerow_def dict_to_list_def csv_field_str_bool)

lemma write_csv_rows_ok:
  "list_all (\<lambda>r. valid_utf8 (writerow (dict_to_list r))) rs \<Longrightarrow>
   write_csv_rows rs f = Inr (f @ concat (map (\<lambda>r. writerow (dict_to_list r)) rs))"
  by (induction rs arbitrary: f) (simp_all add: Let_def)

lemma write_csv_rows_fail:
  "list_all (\<lambda>r. valid_utf8 (writerow (dict_to_list r))) good \<Longrightarrow>
   \<not> valid_utf8 (writerow (dict_to_list bad)) \<Longrightarrow>
   write_csv_rows (good @ bad # rest) f =
     Inl (UnicodeEncodeError, f @ concat (map (\<lambda>r. writerow (dict_to_list r)) good))"
  by (induction good arbitrary: f) (simp_all add: Let_def)

lemma write_csv_rows_Inr:
  "write_csv_rows rs f = Inr body \<Longrightarrow>
   body = f @ concat (map (\<lambda>r. writerow (dict_to_list r)) rs)"
proof (induction rs arbitrary: f)
  case Nil
  then show ?case by simp
next
  case (Cons r rs)
  from Cons.prems have v: "valid_utf8 (writerow (dict_to_list r))"
    by (auto simp: Let_def split: if_splits)
  with Cons.prems have "write_csv_rows rs (f @ writerow (dict_to_list r)) = Inr body"
    by (simp add: Let_def)
  from Cons.IH[OF this] show ?case
    by simp
qed

lemma write_csv_Inr:
  assumes "write_csv fs rs p = Inr fs'"
  shows "write_csv_rows rs (writerow fieldnames) =
           Inr (writerow fieldnames @ concat (map (\<lambda>r. writerow (dict_to_list r)) rs)) \<and>
         write_file fs p (writerow fieldnames @ concat (map (\<lambda>r. writerow (dict_to_list r)) rs))
           = Inr fs'"
proof -
  from assms obtain body where t: "write_csv_rows rs (writerow fieldnames) = Inr body"
    and w: "write_file fs p body = Inr fs'"
    by (auto simp: write_csv_def split: sum.splits prod.splits)
  from write_csv_rows_Inr[OF t] t w show ?thesis
    by simp
qed

lemma write_csv_run:
  assumes "write_csv_rows rs (writerow fieldnames) = Inr body"
    and "write_file fs p body = Inr fs'"
  shows "write_csv fs rs p = Inr fs'"
  using assms by (simp add: write_csv_def)

lemma main_Inr:
  assumes "main sp fs = Inr (fs', out)"
  shows "\<not> length sp < 2 \<and>
    (\<exists>rs. scan_addons fs (butlast (butlast sp)) = Inr rs \<and>
       write_csv fs rs (butlast sp @ [''workbench_report.csv'']) = Inr fs' \<and>
       out = [''Scanning: '' @ str_path (butlast (butlast sp)),
              ''CSV written to: '' @ str_path (butlast sp @ [''workbench_report.csv''])]
             @ print_summary rs)"
  using assms by (auto simp: main_def Let_def split: if_splits sum.splits prod.splits)

lemma main_run:
  assumes "\<not> length sp < 2"
    and "scan_addons fs (butlast (butlast sp)) = Inr rs"
    and "write_csv fs rs (butlast sp @ [''workbench_report.csv'']) = Inr fs'"
  shows "main sp fs = Inr (fs', [''Scanning: '' @ str_path (butlast (butlast sp)),
              ''CSV written to: '' @ str_path (butlast sp @ [''workbench_report.csv''])]
             @ print_summary rs)"
  using assms by (simp add: main_def Let_def)

lemma main_total:
  assumes "\<not> length sp < 2" and "is_dir fs (butlast sp)"
    and "\<not> is_dir fs (butlast sp @ [''workbench_report.csv''])"
    and "scan_addons fs (butlast (butlast sp)) = Inr rs"
    and "list_all (\<lambda>r. valid_utf8 (writerow (dict_to_list r))) rs"
  shows "\<exists>fs' out. main sp fs = Inr (fs', out)"
proof -
  from write_file_ok[OF assms(2,3)] obtain fs' where
    "write_file fs (butlast sp @ [''workbench_report.csv''])
       (writerow fieldnames @ concat (map (\<lambda>r. writerow (dict_to_list r)) rs)) = Inr fs'"
    by blast
  with write_csv_rows_ok[OF assms(5)] have
    "write_csv fs rs (butlast sp @ [''workbench_report.csv'']) = Inr fs'"
    by (rule write_csv_run)
  from main_run[OF assms(1,4) this] show ?thesis
    by blast
qed

lemma sample_tree_scan:
  "scan_addons sample_tree [''w''] =
     Inr [\<lparr>name = ''A'', style = ''old'', path = ''/w/A'', old_style = True, new_style = False\<rparr>,
          \<lparr>name = ''B'', style = ''new'', path = ''/w/B'', old_style = False, new_style = True\<rparr>,
          \<lparr>name = ''D'', style = ''unknown'', path = ''/w/D'', old_style = False,
             new_style = False\<rparr>]"
  by code_simp

lemma sample_tree_run:
  "\<exists>fs' out. main [''w'', ''utils'', ''c.py''] sample_tree = Inr (fs', out)"
proof -
  have "\<not> length [''w'', ''utils'', ''c.py''] < 2"
    by simp
  moreover have "is_dir sample_tree (butlast [''w'', ''utils'', ''c.py''])"
    by code_simp
  moreover have "\<not> is_dir sample_tree (butlast [''w'', ''utils'', ''c.py''] @ [''workbench_report.csv''])"
    by code_simp
  moreover have "scan_addons sample_tree (butlast (butlast [''w'', ''utils'', ''c.py''])) =
     Inr [\<lparr>name = ''A'', style = ''old'', path = ''/w/A'', old_style = True, new_style = False\<rparr>,
          \<lparr>name = ''B'', style = ''new'', path = ''/w/B'', old_style = False, new_style = True\<rparr>,
          \<lparr>name = ''D'', style = ''unknown'', path = ''/w/D'', old_style = False,
             new_style = False\<rparr>]"
    using sample_tree_scan by simp
  moreover have "list_all (\<lambda>r. valid_utf8 (writerow (dict_to_list r)))
        [\<lparr>name = ''A'', style = ''old'', path = ''/w/A'', old_style = True, new_style = False\<rparr>,
          \<lparr>name = ''B'', style = ''new'', path = ''/w/B'', old_style = False, new_style = True\<rparr>,
          \<lparr>name = ''D'', style = ''unknown'', path = ''/w/D'', old_style = False,
             new_style = False\<rparr>]"
    by code_simp
  ultimately show ?thesis
    by (rule main_total)
qed

lemma scan_addons_total:
  assumes "is_dir fs root"
  shows "\<exists>rs. scan_addons fs root = Inr rs"
proof -
  from assms obtain children where "iterdir fs root = Inr children"
    using iterdir_is_dir by blast
  then show ?thesis
    using scan_addons_loop_results[of fs children "[]"] by (auto simp: scan_addons_def)
qed

lemma path_name_child: "path_name (p @ [n]) = n"
  by (simp add: path_name_def)

section \<open>When a lookup raises\<close>























section \<open>The claims\<close>

text \<open>
  C1. The record returned by \<^verbatim>\<open>classify_workbench\<close> carries the two detector results, and its
  style is \<^verbatim>\<open>old\<close> exactly when only the old layout was found, \<^verbatim>\<open>new\<close> exactly when only the
  new one was, \<^verbatim>\<open>mixed\<close> exactly when both were and \<^verbatim>\<open>unknown\<close> exactly when neither was; the
  style is always one of these four, and the four conditions exclude each other.
\<close>

theorem classify_workbench_style_invariant:
  "\<exists>r. classify_workbench fs p = Inr r \<and>
        old_style r = find_old_style fs p \<and>
        find_new_style fs p = Inr (new_style r) \<and>
        (style r = ''old'') = (old_style r \<and> \<not> new_style r) \<and>
        (style r = ''new'') = (new_style r \<and> \<not> old_style r) \<and>
        (style r = ''mixed'') = (old_style r \<and> new_style r) \<and>
        (style r = ''unknown'') = (\<not> old_style r \<and> \<not> new_style r) \<and>
        style r \<in> {''old'', ''new'', ''mixed'', ''unknown''}"
proof -
  obtain new where new: "find_new_style fs p = Inr new"
    by (simp add: find_new_style_char)
  show ?thesis
    by (cases "find_old_style fs p"; cases new)
      (simp_all add: classify_workbench_def Let_def new)
qed

theorem classify_workbench_style_invariant_witness:
  "\<exists>r. classify_workbench sample_tree [''w'', ''A''] = Inr r \<and>
        old_style r = find_old_style sample_tree [''w'', ''A''] \<and>
        find_new_style sample_tree [''w'', ''A''] = Inr (new_style r) \<and>
        (style r = ''old'') = (old_style r \<and> \<not> new_style r) \<and>
        (style r = ''new'') = (new_style r \<and> \<not> old_style r) \<and>
        (style r = ''mixed'') = (old_style r \<and> new_style r) \<and>
        (style r = ''unknown'') = (\<not> old_style r \<and> \<not> new_style r) \<and>
        style r \<in> {''old'', ''new'', ''mixed'', ''unknown''}"
  by (rule classify_workbench_style_invariant)

text \<open>
  C2. \<^verbatim>\<open>find_old_style\<close> is true exactly when the path is a directory that lists an entry
  named \<^verbatim>\<open>Init.py\<close> or \<^verbatim>\<open>init.py\<close> and an entry named \<^verbatim>\<open>InitGui.py\<close> or \<^verbatim>\<open>initgui.py\<close>; only
  the names of the entries are looked at, never what they hold.
\<close>

theorem find_old_style_iff:
  "find_old_style fs p =
     (case stat fs p of
        Inl e \<Rightarrow> False
      | Inr (File c) \<Rightarrow> False
      | Inr (Dir es) \<Rightarrow>
          (''Init.py'' \<in> fst ` set es \<or> ''init.py'' \<in> fst ` set es) \<and>
          (''InitGui.py'' \<in> fst ` set es \<or> ''initgui.py'' \<in> fst ` set es))"
  by (simp add: find_old_style_def exists_child split: sum.splits node.splits)

theorem find_old_style_iff_witness:
  "find_old_style sample_tree [''w'', ''A''] \<and> \<not> find_old_style sample_tree [''w'', ''B'']
   \<and> \<not> find_old_style sample_tree [''w'', ''README'']"
  using find_old_style_iff[of sample_tree "[''w'', ''A'']"]
    find_old_style_iff[of sample_tree "[''w'', ''B'']"]
    find_old_style_iff[of sample_tree "[''w'', ''README'']"]
  by (simp add: sample_tree_def)

text \<open>
  C3. \<^verbatim>\<open>find_new_style\<close> never raises, and it is true exactly when somewhere below the path
  there is a directory named \<^verbatim>\<open>freecad\<close> with a child directory that holds \<^verbatim>\<open>__init__.py\<close>
  and also \<^verbatim>\<open>init_gui.py\<close> or \<^verbatim>\<open>InitGui.py\<close>. Both loops stop at the first hit: a
  satisfying child, or a namespace directory with one, decides the answer whatever follows.
\<close>

theorem find_new_style_iff:
  "find_new_style fs p =
     Inr (\<exists>d s. is_dir fs (p @ d @ [''freecad'']) \<and>
            is_dir fs (p @ d @ [''freecad'', s]) \<and>
            exists fs (p @ d @ [''freecad'', s, ''__init__.py'']) \<and>
            (exists fs (p @ d @ [''freecad'', s, ''init_gui.py'']) \<or>
             exists fs (p @ d @ [''freecad'', s, ''InitGui.py''])))
   \<and> find_new_style_subs fs (sub # subs) =
       ((is_dir fs sub \<and> exists fs (sub @ [''__init__.py'']) \<and>
          (exists fs (sub @ [''init_gui.py'']) \<or> exists fs (sub @ [''InitGui.py'']))) \<or>
        find_new_style_subs fs subs)
   \<and> find_new_style_dirs fs (fd # rest) =
       (if \<exists>s. is_dir fs (fd @ [s]) \<and> exists fs (fd @ [s, ''__init__.py'']) \<and>
             (exists fs (fd @ [s, ''init_gui.py'']) \<or> exists fs (fd @ [s, ''InitGui.py'']))
        then Inr True else find_new_style_dirs fs rest)"
proof (intro conjI)
  have "is_dir fs (p @ d @ [''freecad''])" if "is_dir fs (p @ d @ [''freecad'', s])" for d s
    using that is_dir_prefix[of fs "p @ d @ [''freecad'']" "[s]"] by simp
  then show "find_new_style fs p =
     Inr (\<exists>d s. is_dir fs (p @ d @ [''freecad'']) \<and>
            is_dir fs (p @ d @ [''freecad'', s]) \<and>
            exists fs (p @ d @ [''freecad'', s, ''__init__.py'']) \<and>
            (exists fs (p @ d @ [''freecad'', s, ''init_gui.py'']) \<or>
             exists fs (p @ d @ [''freecad'', s, ''InitGui.py''])))"
    unfolding find_new_style_char by blast
next
  show "find_new_style_subs fs (sub # subs) =
       ((is_dir fs sub \<and> exists fs (sub @ [''__init__.py'']) \<and>
          (exists fs (sub @ [''init_gui.py'']) \<or> exists fs (sub @ [''InitGui.py'']))) \<or>
        find_new_style_subs fs subs)"
    by (auto simp: Let_def)
next
  let ?hit = "\<exists>s. is_dir fs (fd @ [s]) \<and> exists fs (fd @ [s, ''__init__.py'']) \<and>
             (exists fs (fd @ [s, ''init_gui.py'']) \<or> exists fs (fd @ [s, ''InitGui.py'']))"
  have hit: "(is_dir fs fd \<and> (\<exists>subs. iterdir fs fd = Inr subs \<and> find_new_style_subs fs subs)) = ?hit"
    by (rule dir_subs_iff)
  show "find_new_style_dirs fs (fd # rest) = (if ?hit then Inr True else find_new_style_dirs fs rest)"
  proof (cases "is_dir fs fd")
    case True
    then obtain subs where it: "iterdir fs fd = Inr subs"
      using iterdir_is_dir by blast
    with True hit have h: "find_new_style_subs fs subs = ?hit"
      by simp
    from True it have "find_new_style_dirs fs (fd # rest) =
        (if find_new_style_subs fs subs then Inr True else find_new_style_dirs fs rest)"
      by simp
    then show ?thesis
      by (simp only: h)
  next
    case False
    with hit have nh: "\<not> ?hit"
      by simp
    from False have "find_new_style_dirs fs (fd # rest) = find_new_style_dirs fs rest"
      by simp
    with nh show ?thesis
      by (simp only: if_False)
  qed
qed

theorem find_new_style_iff_witness:
  "find_new_style sample_tree [''w'', ''B''] = Inr True \<and>
   find_new_style_subs sample_tree [ [''w'', ''B'', ''freecad'', ''m''], [''w'', ''D''] ] \<and>
   find_new_style_dirs sample_tree [ [''w'', ''B'', ''freecad''], [''w'', ''D''] ] = Inr True"
proof -
  let ?P = "\<lambda>p d s. is_dir sample_tree (p @ d @ [''freecad'']) \<and>
            is_dir sample_tree (p @ d @ [''freecad'', s]) \<and>
            exists sample_tree (p @ d @ [''freecad'', s, ''__init__.py'']) \<and>
            (exists sample_tree (p @ d @ [''freecad'', s, ''init_gui.py'']) \<or>
             exists sample_tree (p @ d @ [''freecad'', s, ''InitGui.py'']))"
  have "?P [''w'', ''B''] [] ''m''"
    by (simp add: sample_tree_def is_dir_def exists_def)
  then have ex: "\<exists>d s. ?P [''w'', ''B''] d s"
    by blast
  have m: "is_dir sample_tree ([''w'', ''B'', ''freecad''] @ [''m'']) \<and>
      exists sample_tree ([''w'', ''B'', ''freecad''] @ [''m'', ''__init__.py'']) \<and>
      (exists sample_tree ([''w'', ''B'', ''freecad''] @ [''m'', ''init_gui.py'']) \<or>
       exists sample_tree ([''w'', ''B'', ''freecad''] @ [''m'', ''InitGui.py'']))"
    by (simp add: sample_tree_def is_dir_def exists_def)
  then have ex2: "\<exists>s. is_dir sample_tree ([''w'', ''B'', ''freecad''] @ [s]) \<and>
      exists sample_tree ([''w'', ''B'', ''freecad''] @ [s, ''__init__.py'']) \<and>
      (exists sample_tree ([''w'', ''B'', ''freecad''] @ [s, ''init_gui.py'']) \<or>
       exists sample_tree ([''w'', ''B'', ''freecad''] @ [s, ''InitGui.py'']))"
    by blast
  have m2: "is_dir sample_tree [''w'', ''B'', ''freecad'', ''m''] \<and>
      exists sample_tree ([''w'', ''B'', ''freecad'', ''m''] @ [''__init__.py'']) \<and>
      (exists sample_tree ([''w'', ''B'', ''freecad'', ''m''] @ [''init_gui.py'']) \<or>
       exists sample_tree ([''w'', ''B'', ''freecad'', ''m''] @ [''InitGui.py'']))"
    using m by simp
  note t = find_new_style_iff[of sample_tree "[''w'', ''B'']"
      "[''w'', ''B'', ''freecad'', ''m'']" "[ [''w'', ''D''] ]"
      "[''w'', ''B'', ''freecad'']" "[ [''w'', ''D''] ]"]
  from t ex have 1: "find_new_style sample_tree [''w'', ''B''] = Inr True"
    by simp
  from t m2 have 2: "find_new_style_subs sample_tree [ [''w'', ''B'', ''freecad'', ''m''], [''w'', ''D''] ]"
    by blast
  from t ex2 have 3: "find_new_style_dirs sample_tree [ [''w'', ''B'', ''freecad''], [''w'', ''D''] ] = Inr True"
    by (simp only: if_True)
  from 1 2 3 show ?thesis by blast
qed

text \<open>
  C4. On a root that is a directory, \<^verbatim>\<open>scan_addons\<close> returns one record for each listed entry
  of the root that is a directory and is not named \<^verbatim>\<open>utils\<close>, in listing order, each being
  what \<^verbatim>\<open>classify_workbench\<close> returns for that child; no record is named \<^verbatim>\<open>utils\<close>, and
  as a directory's entries have different names, so do the records. Only the root is listed.
\<close>

theorem scan_addons_children:
  assumes "stat fs root = Inr (Dir es)"
  shows "\<exists>rs. scan_addons fs root = Inr rs \<and>
     map Inr rs = map (\<lambda>n. classify_workbench fs (root @ [n]))
       (filter (\<lambda>n. is_dir fs (root @ [n]) \<and> n \<noteq> ''utils'') (map fst es)) \<and>
     map name rs = filter (\<lambda>n. is_dir fs (root @ [n]) \<and> n \<noteq> ''utils'') (map fst es) \<and>
     ''utils'' \<notin> set (map name rs) \<and>
     (distinct (map fst es) \<longrightarrow> distinct (map name rs))"
proof -
  let ?P = "\<lambda>c. is_dir fs c \<and> path_name c \<noteq> ''utils''"
  let ?Q = "\<lambda>n. is_dir fs (root @ [n]) \<and> n \<noteq> ''utils''"
  let ?children = "map (\<lambda>e. root @ [fst e]) es"
  from assms have it: "iterdir fs root = Inr ?children"
    by (simp add: iterdir_def)
  from scan_addons_loop_results[of fs ?children "[]"] obtain rs where
    loop: "scan_addons_loop fs ?children [] = Inr rs" and
    rs: "map Inr rs = map (classify_workbench fs) (filter ?P ?children)"
    by auto
  have ch: "filter ?P ?children = map (\<lambda>n. root @ [n]) (filter ?Q (map fst es))"
    by (induction es) (simp_all add: path_name_child)
  from it loop have 1: "scan_addons fs root = Inr rs"
    by (simp add: scan_addons_def)
  from rs have 2: "map Inr rs = map (\<lambda>n. classify_workbench fs (root @ [n])) (filter ?Q (map fst es))"
    by (simp add: ch comp_def)
  from classified_names[OF rs] have 3: "map name rs = filter ?Q (map fst es)"
    by (simp add: ch comp_def path_name_child)
  from 3 have 4: "''utils'' \<notin> set (map name rs)"
    by simp
  from 3 have 5: "distinct (map fst es) \<longrightarrow> distinct (map name rs)"
    by simp
  from 1 2 3 4 5 show ?thesis
    by blast
qed

theorem scan_addons_children_witness:
  "\<exists>rs. scan_addons sample_tree [''w''] = Inr rs \<and>
     map Inr rs = map (\<lambda>n. classify_workbench sample_tree ([''w''] @ [n])) [''A'', ''B'', ''D''] \<and>
     map name rs = [''A'', ''B'', ''D''] \<and>
     ''utils'' \<notin> set (map name rs) \<and> distinct (map name rs)"
proof -
  have s: "stat sample_tree [''w''] =
      Inr (Dir [(''A'', Dir [(''Init.py'', File []), (''InitGui.py'', Dir [])]),
            (''B'', Dir [(''freecad'',
               Dir [(''m'', Dir [(''__init__.py'', Dir []), (''InitGui.py'', Dir [])])])]),
            (''D'', Dir []),
            (''README'', File ''x''),
            (''utils'', Dir [(''c.py'', File []), (''Init.py'', File []),
               (''InitGui.py'', File [])])])"
    by (simp add: sample_tree_def)
  have d: "is_dir sample_tree [''w'', ''A'']" "is_dir sample_tree [''w'', ''B'']"
    "is_dir sample_tree [''w'', ''D'']" "\<not> is_dir sample_tree [''w'', ''README'']"
    by (simp_all add: sample_tree_def is_dir_def)
  from scan_addons_children[OF s] d show ?thesis
    by simp
qed

text \<open>
  C5. When a run succeeds, the summary it prints gives the number of scanned records as the
  total and the four style counts, the four counts add up to the total, and the report file
  it leaves holds the header followed by exactly one row for each of those records.
\<close>

theorem summary_counts_sum_to_total:
  assumes "main sp fs = Inr (fs', out)"
  shows "\<exists>rs. scan_addons fs (butlast (butlast sp)) = Inr rs \<and>
     out = [''Scanning: '' @ str_path (butlast (butlast sp)),
            ''CSV written to: '' @ str_path (butlast sp @ [''workbench_report.csv'']),
            CHR 0x0A # ''Summary'',
            ''----------------------------'',
            ''Total addons scanned : '' @ str_nat (length rs),
            ''Old-style            : '' @ str_nat (count_style ''old'' rs),
            ''New-style            : '' @ str_nat (count_style ''new'' rs),
            ''Mixed                : '' @ str_nat (count_style ''mixed'' rs),
            ''Unknown              : '' @ str_nat (count_style ''unknown'' rs),
            ''----------------------------'']
     \<and> count_style ''old'' rs + count_style ''new'' rs + count_style ''mixed'' rs
         + count_style ''unknown'' rs = length rs
     \<and> (\<exists>rows. stat fs' (butlast sp @ [''workbench_report.csv'']) =
             Inr (File (writerow fieldnames @ concat rows))
           \<and> rows = map (\<lambda>r. writerow (dict_to_list r)) rs \<and> length rows = length rs)"
proof -
  from main_Inr[OF assms] obtain rs where sc: "scan_addons fs (butlast (butlast sp)) = Inr rs"
    and wr: "write_csv fs rs (butlast sp @ [''workbench_report.csv'']) = Inr fs'"
    and out: "out = [''Scanning: '' @ str_path (butlast (butlast sp)),
              ''CSV written to: '' @ str_path (butlast sp @ [''workbench_report.csv''])]
             @ print_summary rs"
    by blast
  have 1: "count_style ''old'' rs + count_style ''new'' rs + count_style ''mixed'' rs
         + count_style ''unknown'' rs = length rs"
    using scan_addons_styles[OF sc] by (rule count_style_total)
  from write_csv_Inr[OF wr] have
    "write_file fs (butlast sp @ [''workbench_report.csv''])
       (writerow fieldnames @ concat (map (\<lambda>r. writerow (dict_to_list r)) rs)) = Inr fs'"
    by simp
  then have 2: "stat fs' (butlast sp @ [''workbench_report.csv'']) =
      Inr (File (writerow fieldnames @ concat (map (\<lambda>r. writerow (dict_to_list r)) rs)))"
    by (rule stat_write_file_self)
  from out have 3: "out = [''Scanning: '' @ str_path (butlast (butlast sp)),
            ''CSV written to: '' @ str_path (butlast sp @ [''workbench_report.csv'']),
            CHR 0x0A # ''Summary'',
            ''----------------------------'',
            ''Total addons scanned : '' @ str_nat (length rs),
            ''Old-style            : '' @ str_nat (count_style ''old'' rs),
            ''New-style            : '' @ str_nat (count_style ''new'' rs),
            ''Mixed                : '' @ str_nat (count_style ''mixed'' rs),
            ''Unknown              : '' @ str_nat (count_style ''unknown'' rs),
            ''----------------------------'']"
    by (simp add: print_summary_def)
  from sc 1 2 3 show ?thesis
    by simp
qed

theorem summary_counts_sum_to_total_witness:
  "\<exists>fs' out rs. main [''w'', ''utils'', ''c.py''] sample_tree = Inr (fs', out) \<and>
     scan_addons sample_tree [''w''] = Inr rs \<and>
     out = [''Scanning: /w'',
            ''CSV written to: /w/utils/workbench_report.csv'',
            CHR 0x0A # ''Summary'',
            ''----------------------------'',
            ''Total addons scanned : '' @ str_nat (length rs),
            ''Old-style            : '' @ str_nat (count_style ''old'' rs),
            ''New-style            : '' @ str_nat (count_style ''new'' rs),
            ''Mixed                : '' @ str_nat (count_style ''mixed'' rs),
            ''Unknown              : '' @ str_nat (count_style ''unknown'' rs),
            ''----------------------------'']
     \<and> count_style ''old'' rs + count_style ''new'' rs + count_style ''mixed'' rs
         + count_style ''unknown'' rs = length rs
     \<and> (\<exists>rows. stat fs' [''w'', ''utils'', ''workbench_report.csv''] =
             Inr (File (writerow fieldnames @ concat rows))
           \<and> rows = map (\<lambda>r. writerow (dict_to_list r)) rs \<and> length rows = length rs)"
proof -
  from sample_tree_run obtain fs' out where
    m: "main [''w'', ''utils'', ''c.py''] sample_tree = Inr (fs', out)"
    by blast
  from summary_counts_sum_to_total[OF m] m show ?thesis
    by (simp add: str_path_def)
qed

text \<open>
  C6. When a run succeeds, a second run on the tree it leaves behind succeeds too, leaves
  that tree as it is, the report file with it, and prints the same lines.
\<close>

theorem two_runs_same_report:
  assumes "main sp fs = Inr (fs1, out)"
  shows "main sp fs1 = Inr (fs1, out) \<and>
     (\<exists>content. stat fs1 (butlast sp @ [''workbench_report.csv'']) = Inr (File content))"
proof -
  let ?root = "butlast (butlast sp)"
  let ?csv = "butlast sp @ [''workbench_report.csv'']"
  from main_Inr[OF assms] obtain results where len: "\<not> length sp < 2"
    and sc: "scan_addons fs ?root = Inr results"
    and wr: "write_csv fs results ?csv = Inr fs1"
    and out: "out = [''Scanning: '' @ str_path ?root, ''CSV written to: '' @ str_path ?csv]
                 @ print_summary results"
    by blast
  let ?c = "writerow fieldnames @ concat (map (\<lambda>r. writerow (dict_to_list r)) results)"
  from write_csv_Inr[OF wr] have rows: "write_csv_rows results (writerow fieldnames) = Inr ?c"
    and w: "write_file fs ?csv ?c = Inr fs1"
    by simp_all
  from w have w': "write_file fs (?root @ [last (butlast sp), ''workbench_report.csv'']) ?c = Inr fs1"
    by (simp only: script_path_split[OF len])
  have sc1: "scan_addons fs1 ?root = Inr results"
    using scan_addons_write[OF w'] sc by simp
  have "write_csv fs1 results ?csv = Inr fs1"
    using rows write_file_again[OF w] by (rule write_csv_run)
  from main_run[OF len sc1 this] out have "main sp fs1 = Inr (fs1, out)"
    by simp
  moreover have "stat fs1 ?csv = Inr (File ?c)"
    using w by (rule stat_write_file_self)
  ultimately show ?thesis
    by blast
qed

theorem two_runs_same_report_witness:
  "\<exists>fs1 out. main [''w'', ''utils'', ''c.py''] sample_tree = Inr (fs1, out) \<and>
     main [''w'', ''utils'', ''c.py''] fs1 = Inr (fs1, out) \<and>
     (\<exists>content. stat fs1 [''w'', ''utils'', ''workbench_report.csv''] = Inr (File content))"
proof -
  from sample_tree_run obtain fs1 out where
    m: "main [''w'', ''utils'', ''c.py''] sample_tree = Inr (fs1, out)"
    by blast
  from two_runs_same_report[OF m] have "main [''w'', ''utils'', ''c.py''] fs1 = Inr (fs1, out) \<and>
     (\<exists>content. stat fs1 [''w'', ''utils'', ''workbench_report.csv''] = Inr (File content))"
    by simp
  with m show ?thesis
    by blast
qed

text \<open>
  C7. With the target's directory present and the target not itself a directory,
  whatever the target held before: when every row line is well-formed UTF-8, \<^verbatim>\<open>write_csv\<close>
  leaves in the target the header line \<^verbatim>\<open>name,style,path,old_style,new_style\<close> followed by
  one line per record, in the order of the records (name, style, path, then the two booleans
  as \<^verbatim>\<open>True\<close> or \<^verbatim>\<open>False\<close>, joined by commas, every line ended by CR LF); at the first
  record whose line is not well-formed UTF-8 it raises \<^verbatim>\<open>UnicodeEncodeError\<close>, and the target
  holds the header and the lines of the records before that one.
\<close>

theorem write_csv_report:
  assumes "is_dir fs dir" and "\<not> is_dir fs (dir @ [n])"
  shows "writerow fieldnames = ''name,style,path,old_style,new_style'' @ [CHR 0x0D, CHR 0x0A] \<and>
     writerow (dict_to_list r) =
       csv_field (name r) @ '','' @ csv_field (style r) @ '','' @ csv_field (path r) @ '',''
         @ (if old_style r then ''True'' else ''False'') @ '',''
         @ (if new_style r then ''True'' else ''False'') @ [CHR 0x0D, CHR 0x0A] \<and>
     (list_all (\<lambda>r. valid_utf8 (writerow (dict_to_list r))) results \<longrightarrow>
        (\<exists>fs'. write_csv fs results (dir @ [n]) = Inr fs' \<and>
           stat fs' (dir @ [n]) =
             Inr (File (writerow fieldnames
                        @ concat (map (\<lambda>r. writerow (dict_to_list r)) results))))) \<and>
     (list_all (\<lambda>r. valid_utf8 (writerow (dict_to_list r))) good \<and>
      \<not> valid_utf8 (writerow (dict_to_list bad)) \<longrightarrow>
        (\<exists>fs'. write_csv fs (good @ bad # rest) (dir @ [n]) = Inl (UnicodeEncodeError, fs') \<and>
           stat fs' (dir @ [n]) =
             Inr (File (writerow fieldnames
                        @ concat (map (\<lambda>r. writerow (dict_to_list r)) good)))))"
proof (intro conjI impI)
  show "writerow fieldnames = ''name,style,path,old_style,new_style'' @ [CHR 0x0D, CHR 0x0A]"
    by (rule writerow_fieldnames)
  show "writerow (dict_to_list r) =
       csv_field (name r) @ '','' @ csv_field (style r) @ '','' @ csv_field (path r) @ '',''
         @ (if old_style r then ''True'' else ''False'') @ '',''
         @ (if new_style r then ''True'' else ''False'') @ [CHR 0x0D, CHR 0x0A]"
    by (simp only: writerow_dict_to_list str_bool_def)
next
  assume v: "list_all (\<lambda>r. valid_utf8 (writerow (dict_to_list r))) results"
  let ?c = "writerow fieldnames @ concat (map (\<lambda>r. writerow (dict_to_list r)) results)"
  from write_file_ok[OF assms] obtain fs' where w: "write_file fs (dir @ [n]) ?c = Inr fs'"
    by blast
  from write_csv_rows_ok[OF v] w have "write_csv fs results (dir @ [n]) = Inr fs'"
    by (rule write_csv_run)
  moreover have "stat fs' (dir @ [n]) = Inr (File ?c)"
    using w by (rule stat_write_file_self)
  ultimately show "\<exists>fs'. write_csv fs results (dir @ [n]) = Inr fs' \<and>
           stat fs' (dir @ [n]) = Inr (File ?c)"
    by blast
next
  assume h: "list_all (\<lambda>r. valid_utf8 (writerow (dict_to_list r))) good \<and>
      \<not> valid_utf8 (writerow (dict_to_list bad))"
  let ?c = "writerow fieldnames @ concat (map (\<lambda>r. writerow (dict_to_list r)) good)"
  from write_file_ok[OF assms] obtain fs' where w: "write_file fs (dir @ [n]) ?c = Inr fs'"
    by blast
  from h have "write_csv_rows (good @ bad # rest) (writerow fieldnames) =
      Inl (UnicodeEncodeError, ?c)"
    by (simp add: write_csv_rows_fail)
  with w have "write_csv fs (good @ bad # rest) (dir @ [n]) = Inl (UnicodeEncodeError, fs')"
    by (simp add: write_csv_def)
  moreover have "stat fs' (dir @ [n]) = Inr (File ?c)"
    using w by (rule stat_write_file_self)
  ultimately show "\<exists>fs'. write_csv fs (good @ bad # rest) (dir @ [n]) =
        Inl (UnicodeEncodeError, fs') \<and> stat fs' (dir @ [n]) = Inr (File ?c)"
    by blast
qed

theorem write_csv_report_witness:
  "(\<exists>fs'. write_csv sample_tree
        [\<lparr>name = ''a,b'', style = ''old'', path = ''/w/a,b'', old_style = True, new_style = False\<rparr>]
        [''w'', ''README''] = Inr fs' \<and>
     stat fs' [''w'', ''README''] =
       Inr (File (''name,style,path,old_style,new_style'' @ [CHR 0x0D, CHR 0x0A] @
         [CHR 0x22] @ ''a,b'' @ [CHR 0x22] @ '',old,'' @ [CHR 0x22] @ ''/w/a,b'' @ [CHR 0x22]
           @ '',True,False'' @ [CHR 0x0D, CHR 0x0A]))) \<and>
   (\<exists>fs'. write_csv sample_tree
        [\<lparr>name = ''D'', style = ''unknown'', path = ''/w/D'', old_style = False, new_style = False\<rparr>,
         \<lparr>name = [CHR 0x63, CHR 0xFF], style = ''unknown'', path = ''/w/'' @ [CHR 0x63, CHR 0xFF],
            old_style = False, new_style = False\<rparr>,
         \<lparr>name = ''E'', style = ''unknown'', path = ''/w/E'', old_style = False, new_style = False\<rparr>]
        [''w'', ''README''] = Inl (UnicodeEncodeError, fs') \<and>
     stat fs' [''w'', ''README''] =
       Inr (File (''name,style,path,old_style,new_style'' @ [CHR 0x0D, CHR 0x0A] @
         ''D,unknown,/w/D,False,False'' @ [CHR 0x0D, CHR 0x0A])))"
proof -
  let ?r1 = "\<lparr>name = ''a,b'', style = ''old'', path = ''/w/a,b'', old_style = True,
      new_style = False\<rparr>"
  let ?d = "\<lparr>name = ''D'', style = ''unknown'', path = ''/w/D'', old_style = False,
      new_style = False\<rparr>"
  let ?bad = "\<lparr>name = [CHR 0x63, CHR 0xFF], style = ''unknown'',
      path = ''/w/'' @ [CHR 0x63, CHR 0xFF], old_style = False, new_style = False\<rparr>"
  let ?e = "\<lparr>name = ''E'', style = ''unknown'', path = ''/w/E'', old_style = False,
      new_style = False\<rparr>"
  have d: "is_dir sample_tree [''w'']" "\<not> is_dir sample_tree ([''w''] @ [''README''])"
    by (simp_all add: sample_tree_def is_dir_def)
  have v1: "list_all (\<lambda>r. valid_utf8 (writerow (dict_to_list r))) [?r1]"
    by code_simp
  have v2: "list_all (\<lambda>r. valid_utf8 (writerow (dict_to_list r))) [?d] \<and>
      \<not> valid_utf8 (writerow (dict_to_list ?bad))"
    by code_simp
  have c1: "writerow fieldnames @ concat (map (\<lambda>r. writerow (dict_to_list r)) [?r1]) =
      ''name,style,path,old_style,new_style'' @ [CHR 0x0D, CHR 0x0A] @
         [CHR 0x22] @ ''a,b'' @ [CHR 0x22] @ '',old,'' @ [CHR 0x22] @ ''/w/a,b'' @ [CHR 0x22]
           @ '',True,False'' @ [CHR 0x0D, CHR 0x0A]"
    by code_simp
  have c2: "writerow fieldnames @ concat (map (\<lambda>r. writerow (dict_to_list r)) [?d]) =
      ''name,style,path,old_style,new_style'' @ [CHR 0x0D, CHR 0x0A] @
         ''D,unknown,/w/D,False,False'' @ [CHR 0x0D, CHR 0x0A]"
    by code_simp
  note t = write_csv_report[OF d, of _ "[?r1]" "[?d]" ?bad "[?e]"]
  from t v1 have "\<exists>fs'. write_csv sample_tree [?r1] ([''w''] @ [''README'']) = Inr fs' \<and>
     stat fs' ([''w''] @ [''README'']) =
       Inr (File (writerow fieldnames @ concat (map (\<lambda>r. writerow (dict_to_list r)) [?r1])))"
    by blast
  then have a: "\<exists>fs'. write_csv sample_tree [?r1] [''w'', ''README''] = Inr fs' \<and>
     stat fs' [''w'', ''README''] =
       Inr (File (''name,style,path,old_style,new_style'' @ [CHR 0x0D, CHR 0x0A] @
         [CHR 0x22] @ ''a,b'' @ [CHR 0x22] @ '',old,'' @ [CHR 0x22] @ ''/w/a,b'' @ [CHR 0x22]
           @ '',True,False'' @ [CHR 0x0D, CHR 0x0A]))"
    by (simp only: c1 append_Cons append_Nil)
  from t v2 have "\<exists>fs'. write_csv sample_tree ([?d] @ ?bad # [?e]) ([''w''] @ [''README'']) =
        Inl (UnicodeEncodeError, fs') \<and>
     stat fs' ([''w''] @ [''README'']) =
       Inr (File (writerow fieldnames @ concat (map (\<lambda>r. writerow (dict_to_list r)) [?d])))"
    by blast
  then have b: "\<exists>fs'. write_csv sample_tree [?d, ?bad, ?e] [''w'', ''README''] =
        Inl (UnicodeEncodeError, fs') \<and>
     stat fs' [''w'', ''README''] =
       Inr (File (''name,style,path,old_style,new_style'' @ [CHR 0x0D, CHR 0x0A] @
         ''D,unknown,/w/D,False,False'' @ [CHR 0x0D, CHR 0x0A]))"
    by (simp only: c2 append_Cons append_Nil)
  from a b show ?thesis
    by blast
qed

text \<open>
  The condition on UTF-8 cannot be dropped: for the record of a directory whose name is not
  well-formed UTF-8, \<^verbatim>\<open>write_csv\<close> raises and leaves a report that holds the header alone,
  and a run over a checkout with such an addon ends in that error.
\<close>

theorem write_csv_report_counterexample:
  "write_csv (Dir [(''report.csv'', File ''old'')])
     [\<lparr>name = [CHR 0x63, CHR 0xFF], style = ''unknown'', path = ''/w/'' @ [CHR 0x63, CHR 0xFF],
        old_style = False, new_style = False\<rparr>]
     [''report.csv'']
   = Inl (UnicodeEncodeError,
          Dir [(''report.csv'',
                File (''name,style,path,old_style,new_style'' @ [CHR 0x0D, CHR 0x0A]))]) \<and>
   main [''w'', ''utils'', ''c.py'']
     (Dir [(''w'', Dir [([CHR 0x63, CHR 0xFF], Dir []),
                        (''utils'', Dir [(''c.py'', File [])])])])
   = Inl UnicodeEncodeError"
  by code_simp




text \<open>
  C9. The marker checks only ask whether the name exists: whatever sits under a marker name,
  a file or a directory, the legacy detector is satisfied by a directory that has an init
  and a gui marker name, and the new-layout detector by a child directory of a \<^verbatim>\<open>freecad\<close>
  directory that has \<^verbatim>\<open>__init__.py\<close> and a gui marker name.
\<close>

theorem marker_kind_is_not_checked:
  "(stat fs p = Inr (Dir es) \<and> map_of es i = Some a \<and> map_of es g = Some b \<and>
      i \<in> {''Init.py'', ''init.py''} \<and> g \<in> {''InitGui.py'', ''initgui.py''}
      \<longrightarrow> find_old_style fs p) \<and>
   (is_dir fs (p @ d @ [''freecad'', s]) \<and>
      stat fs (p @ d @ [''freecad'', s, ''__init__.py'']) = Inr a \<and>
      stat fs (p @ d @ [''freecad'', s, g']) = Inr b \<and>
      g' \<in> {''init_gui.py'', ''InitGui.py''}
      \<longrightarrow> find_new_style fs p = Inr True)"
proof (intro conjI impI)
  assume h: "stat fs p = Inr (Dir es) \<and> map_of es i = Some a \<and> map_of es g = Some b \<and>
      i \<in> {''Init.py'', ''init.py''} \<and> g \<in> {''InitGui.py'', ''initgui.py''}"
  then have "exists fs (p @ [i])" "exists fs (p @ [g])"
    by (simp_all add: exists_def stat_append)
  with h show "find_old_style fs p"
    by (auto simp: find_old_style_def)
next
  assume h: "is_dir fs (p @ d @ [''freecad'', s]) \<and>
      stat fs (p @ d @ [''freecad'', s, ''__init__.py'']) = Inr a \<and>
      stat fs (p @ d @ [''freecad'', s, g']) = Inr b \<and>
      g' \<in> {''init_gui.py'', ''InitGui.py''}"
  then have e: "exists fs (p @ d @ [''freecad'', s, ''__init__.py''])"
    "exists fs (p @ d @ [''freecad'', s, g'])"
    by (simp_all add: exists_def)
  from h e have "is_dir fs (p @ d @ [''freecad'', s]) \<and>
            exists fs (p @ d @ [''freecad'', s, ''__init__.py'']) \<and>
            (exists fs (p @ d @ [''freecad'', s, ''init_gui.py'']) \<or>
             exists fs (p @ d @ [''freecad'', s, ''InitGui.py'']))"
    by auto
  then have "\<exists>d s. is_dir fs (p @ d @ [''freecad'', s]) \<and>
            exists fs (p @ d @ [''freecad'', s, ''__init__.py'']) \<and>
            (exists fs (p @ d @ [''freecad'', s, ''init_gui.py'']) \<or>
             exists fs (p @ d @ [''freecad'', s, ''InitGui.py'']))"
    by blast
  then show "find_new_style fs p = Inr True"
    by (simp only: find_new_style_char)
qed

theorem marker_kind_is_not_checked_witness:
  "find_old_style sample_tree [''w'', ''A''] \<and> find_new_style sample_tree [''w'', ''B''] = Inr True"
proof -
  have 1: "stat sample_tree [''w'', ''A''] = Inr (Dir [(''Init.py'', File []), (''InitGui.py'', Dir [])])
      \<and> map_of [(''Init.py'', File []), (''InitGui.py'', Dir [])] ''Init.py'' = Some (File [])
      \<and> map_of [(''Init.py'', File []), (''InitGui.py'', Dir [])] ''InitGui.py'' = Some (Dir [])
      \<and> ''Init.py'' \<in> {''Init.py'', ''init.py''} \<and> ''InitGui.py'' \<in> {''InitGui.py'', ''initgui.py''}"
    by (simp add: sample_tree_def)
  have 2: "is_dir sample_tree ([''w'', ''B''] @ [] @ [''freecad'', ''m'']) \<and>
      stat sample_tree ([''w'', ''B''] @ [] @ [''freecad'', ''m'', ''__init__.py'']) = Inr (Dir []) \<and>
      stat sample_tree ([''w'', ''B''] @ [] @ [''freecad'', ''m'', ''InitGui.py'']) = Inr (Dir []) \<and>
      ''InitGui.py'' \<in> {''init_gui.py'', ''InitGui.py''}"
    by (simp add: sample_tree_def is_dir_def)
  note t = marker_kind_is_not_checked[of sample_tree "[''w'', ''A'']"
      "[(''Init.py'', File []), (''InitGui.py'', Dir [])]" "''Init.py''" "File []"
      "''InitGui.py''" "Dir []"]
  note u = marker_kind_is_not_checked[of sample_tree "[''w'', ''B'']" _ _ "Dir []" _ "Dir []"
      "[]" "''m''" "''InitGui.py''"]
  from t 1 have a: "find_old_style sample_tree [''w'', ''A'']"
    by blast
  from u 2 have b: "find_new_style sample_tree [''w'', ''B''] = Inr True"
    by blast
  from a b show ?thesis
    by blast
qed

text \<open>
  C10. With the script in the directory \<^verbatim>\<open>utils\<close> of the scan root, a run that succeeds
  has written the report to \<^verbatim>\<open>utils/workbench_report.csv\<close>; every path below the root that
  does not start with \<^verbatim>\<open>utils\<close> is as it was, the root lists the same children, and a scan
  of the tree left behind gives the same result as the scan of the tree before.
\<close>

theorem report_stays_out_of_the_addons:
  assumes "main (root @ [''utils'', script]) fs = Inr (fs', out)"
  shows "(\<exists>content. stat fs' (root @ [''utils'', ''workbench_report.csv'']) = Inr (File content)) \<and>
     (\<forall>c q. c \<noteq> ''utils'' \<longrightarrow> stat fs' (root @ c # q) = stat fs (root @ c # q)) \<and>
     iterdir fs' root = iterdir fs root \<and>
     scan_addons fs' root = scan_addons fs root \<and>
     (\<exists>rs. scan_addons fs root = Inr rs \<and> ''utils'' \<notin> set (map name rs))"
proof -
  let ?sp = "root @ [''utils'', script]"
  have bl: "butlast ?sp = root @ [''utils'']" "butlast (butlast ?sp) = root"
    by (simp_all add: butlast_append)
  from main_Inr[OF assms] obtain results where sc: "scan_addons fs root = Inr results"
    and wr: "write_csv fs results (root @ [''utils'', ''workbench_report.csv'']) = Inr fs'"
    by (auto simp: bl)
  let ?c = "writerow fieldnames @ concat (map (\<lambda>r. writerow (dict_to_list r)) results)"
  from write_csv_Inr[OF wr] have
    w: "write_file fs (root @ [''utils'', ''workbench_report.csv'']) ?c = Inr fs'"
    by simp
  have 1: "stat fs' (root @ [''utils'', ''workbench_report.csv'']) = Inr (File ?c)"
    using w by (rule stat_write_file_self)
  have 2: "stat fs' (root @ c # q) = stat fs (root @ c # q)" if "c \<noteq> ''utils''" for c q
    using w that stat_write_file_other[of fs root "''utils''" "[''workbench_report.csv'']" ?c fs' c q]
    by simp
  have 3: "iterdir fs' root = iterdir fs root"
    using w iterdir_write_file[of fs root "''utils''" "''workbench_report.csv''" "[]" ?c fs']
    by simp
  have 4: "scan_addons fs' root = scan_addons fs root"
    using w by (rule scan_addons_write)
  from sc obtain es where "stat fs root = Inr (Dir es)"
    by (auto simp: scan_addons_def iterdir_def split: sum.splits node.splits)
  then obtain children where it: "iterdir fs root = Inr children"
    by (simp add: iterdir_def)
  with sc have loop: "scan_addons_loop fs children [] = Inr results"
    by (simp add: scan_addons_def)
  from scan_addons_loop_results[of fs children "[]"] loop have
    "map Inr results = map (classify_workbench fs)
       (filter (\<lambda>c. is_dir fs c \<and> path_name c \<noteq> ''utils'') children)"
    by simp
  from classified_names[OF this] have 5: "''utils'' \<notin> set (map name results)"
    by auto
  from 1 2 3 4 5 sc show ?thesis
    by blast
qed

theorem report_stays_out_of_the_addons_witness:
  "\<exists>fs' out. main ([''w''] @ [''utils'', ''c.py'']) sample_tree = Inr (fs', out) \<and>
     (\<exists>content. stat fs' ([''w''] @ [''utils'', ''workbench_report.csv'']) = Inr (File content)) \<and>
     stat fs' ([''w''] @ ''A'' # [''Init.py'']) = stat sample_tree ([''w''] @ ''A'' # [''Init.py'']) \<and>
     iterdir fs' [''w''] = iterdir sample_tree [''w''] \<and>
     scan_addons fs' [''w''] = scan_addons sample_tree [''w''] \<and>
     (\<exists>rs. scan_addons sample_tree [''w''] = Inr rs \<and> ''utils'' \<notin> set (map name rs))"
proof -
  from sample_tree_run obtain fs' out where
    m: "main ([''w''] @ [''utils'', ''c.py'']) sample_tree = Inr (fs', out)"
    by auto
  have ne: "''A'' \<noteq> ''utils''"
    by simp
  from report_stays_out_of_the_addons[OF m] ne m show ?thesis
    by blast
qed

end
